theory Spec2Isabelle
  imports Complex_Main "HOL-Library.Log_Nat"
begin

section \<open>Machine integers and Go's time package\<close>

text \<open>
  \<open>int64\<close>, \<open>time.Duration\<close> (an \<open>int64\<close> count of nanoseconds) and the counts of the
  windows are integers with the two's complement wrap-around written out by \<open>i64\<close>.
\<close>

datatype panic = DivideByZero | CloseOfNilChannel | CloseOfClosedChannel

definition in_int64 :: "int \<Rightarrow> bool" where
  "in_int64 x = (- (2 ^ 63) \<le> x \<and> x < 2 ^ 63)"

definition i64 :: "int \<Rightarrow> int" where
  "i64 x = (x + 2 ^ 63) mod 2 ^ 64 - 2 ^ 63"

text \<open>Go's integer quotient truncates toward zero; a zero divisor is a run-time panic.\<close>

definition go_quot :: "int \<Rightarrow> int \<Rightarrow> int" where
  "go_quot a b = sgn a * sgn b * (\<bar>a\<bar> div \<bar>b\<bar>)"

definition go_div :: "int \<Rightarrow> int \<Rightarrow> panic + int" where
  "go_div a b = (if b = 0 then Inl DivideByZero else Inr (i64 (go_quot a b)))"

text \<open>
  A \<open>time.Time\<close> is the number of nanoseconds since Go's zero time (January 1, year 1,
  UTC), the origin \<open>Truncate\<close> counts from. The monotonic clock reading plays no part:
  \<open>Truncate\<close> strips it and the start of a window carries none. The range of
  \<open>time.Time\<close> (an \<open>int64\<close> of seconds) is not bounded here.
\<close>

type_synonym time = int
type_synonym duration = int

definition minDuration :: duration where
  "minDuration = - (2 ^ 63)"

definition maxDuration :: duration where
  "maxDuration = 2 ^ 63 - 1"

text \<open>\<open>t.Sub(u)\<close>: the difference, saturated at the ends of \<open>Duration\<close>.\<close>

definition Time_Sub :: "time \<Rightarrow> time \<Rightarrow> duration" where
  "Time_Sub t u = (if t - u < minDuration then minDuration
                   else if maxDuration < t - u then maxDuration else t - u)"

text \<open>\<open>t.Truncate(d)\<close>: \<open>t\<close> rounded down to a multiple of \<open>d\<close>; \<open>t\<close> itself when \<open>d <= 0\<close>.\<close>

definition Time_Truncate :: "time \<Rightarrow> duration \<Rightarrow> time" where
  "Time_Truncate t d = (if d \<le> 0 then t else t - t mod d)"

definition Time_Add :: "time \<Rightarrow> duration \<Rightarrow> time" where
  "Time_Add t d = t + d"

section \<open>float64 arithmetic\<close>

text \<open>
  A finite \<open>float64\<close> is a pair \<open>(m, e)\<close> standing for \<open>m * 2 ^ e\<close>. Every operation
  of \<open>Count\<close> rounds its exact result to 53 significant bits, to nearest, ties to even.
  The operands are quotients and products of \<open>int64\<close> values, so the exponent stays far
  inside the range of the format and neither overflow nor subnormal numbers occur; the sign
  of a zero is not kept (it converts to the integer 0 either way).
\<close>

type_synonym f64 = "int \<times> int"

definition f64_val :: "f64 \<Rightarrow> real" where
  "f64_val f = of_int (fst f) * 2 powi (snd f)"

text \<open>The fraction \<open>(p / q) / 2 ^ e\<close> as a numerator and a denominator.\<close>

definition scale_frac :: "int \<Rightarrow> int \<Rightarrow> int \<Rightarrow> int \<times> int" where
  "scale_frac p q e = (if 0 \<le> e then (p, q * 2 ^ nat e) else (p * 2 ^ nat (- e), q))"

text \<open>The integer nearest to \<open>n / d\<close>, a tie going to the even one (\<open>0 \<le> n\<close>, \<open>0 < d\<close>).\<close>

definition round_even :: "int \<Rightarrow> int \<Rightarrow> int" where
  "round_even n d =
     (let m = n div d; r = n mod d
      in if d < 2 * r \<or> (2 * r = d \<and> odd m) then m + 1 else m)"

text \<open>For \<open>0 < p\<close> and \<open>0 < q\<close>: the exponent \<open>e\<close> with \<open>2 ^ 52 \<le> (p / q) / 2 ^ e < 2 ^ 53\<close>.\<close>

definition f64_exponent :: "int \<Rightarrow> int \<Rightarrow> int" where
  "f64_exponent p q =
     (let k = bitlen p - bitlen q - 53; nd = scale_frac p q k
      in if 2 ^ 53 * snd nd \<le> fst nd then k + 1 else k)"

text \<open>
  \<open>p / q\<close> rounded to the nearest \<open>float64\<close>. A zero divisor does not reach the float
  division of \<open>Count\<close>: \<open>advance\<close> has panicked before.
\<close>

definition f64_round :: "int \<Rightarrow> int \<Rightarrow> f64" where
  "f64_round p q =
     (if p = 0 \<or> q = 0 then (0, 0)
      else let e = f64_exponent \<bar>p\<bar> \<bar>q\<bar>; nd = scale_frac \<bar>p\<bar> \<bar>q\<bar> e
           in (sgn p * sgn q * round_even (fst nd) (snd nd), e))"

text \<open>The conversion \<open>float64(x)\<close> of an \<open>int64\<close>.\<close>

definition f64_of_int64 :: "int \<Rightarrow> f64" where
  "f64_of_int64 x = f64_round x 1"

definition f64_div :: "f64 \<Rightarrow> f64 \<Rightarrow> f64" where
  "f64_div a b = (let r = f64_round (fst a) (fst b) in (fst r, snd r + snd a - snd b))"

definition f64_mul :: "f64 \<Rightarrow> f64 \<Rightarrow> f64" where
  "f64_mul a b = (let r = f64_round (fst a * fst b) 1 in (fst r, snd r + snd a + snd b))"

text \<open>The integer part, toward zero.\<close>

definition f64_trunc :: "f64 \<Rightarrow> int" where
  "f64_trunc f =
     (if 0 \<le> snd f then fst f * 2 ^ nat (snd f)
      else sgn (fst f) * (\<bar>fst f\<bar> div 2 ^ nat (- snd f)))"

text \<open>
  The conversion \<open>int64(f)\<close> discards the fraction. When the integer part does not fit,
  Go leaves the result to the implementation: \<open>oor\<close> is what the platform gives then.
\<close>

definition int64_of_f64 :: "(int \<Rightarrow> int) \<Rightarrow> f64 \<Rightarrow> int" where
  "int64_of_f64 oor f = (let t = f64_trunc f in if in_int64 t then t else oor t)"

section \<open>Windows\<close>

text \<open>
  Modelled from the spec: the \<open>Window\<close> interface, \<open>LocalWindow\<close> and
  \<open>NewLocalWindow\<close> (their file is not among the sources; \<open>counter.go\<close> only calls
  them). A window is a start instant and a count; \<open>AddCount\<close> adds, \<open>Reset\<close> replaces
  both, \<open>Sync\<close> is a no-op on a local window and reconciles the count of a synchronized
  one with its store, which is the parameter \<open>ext\<close>. The spec does not say where a fresh
  window starts: that instant is the parameter \<open>t0\<close> of \<open>NewLocalWindow\<close>.
\<close>

datatype backend = LocalWindow | SyncWindow

record window =
  start :: time
  count :: int
  backend :: backend

definition Window_Start :: "window \<Rightarrow> time" where
  "Window_Start w = start w"

definition Window_Count :: "window \<Rightarrow> int" where
  "Window_Count w = count w"

definition Window_AddCount :: "int \<Rightarrow> window \<Rightarrow> window" where
  "Window_AddCount n w = w\<lparr>count := i64 (count w + n)\<rparr>"

definition Window_Reset :: "time \<Rightarrow> int \<Rightarrow> window \<Rightarrow> window" where
  "Window_Reset s c w = w\<lparr>start := s, count := c\<rparr>"

definition Window_Sync :: "(time \<Rightarrow> int \<Rightarrow> int) \<Rightarrow> time \<Rightarrow> window \<Rightarrow> window" where
  "Window_Sync ext now w =
     (case backend w of LocalWindow \<Rightarrow> w | SyncWindow \<Rightarrow> w\<lparr>count := ext now (count w)\<rparr>)"

definition NewLocalWindow :: "time \<Rightarrow> unit \<Rightarrow> window \<times> unit" where
  "NewLocalWindow t0 u = (\<lparr>start = t0, count = 0, backend = LocalWindow\<rparr>, ())"

section \<open>The counter\<close>

text \<open>
  A channel nobody sends on is open or closed; \<open>None\<close> is the nil channel. A receive
  from it can be chosen by a \<open>select\<close> only once it is closed, and never when it is nil;
  closing a nil or a closed channel panics.
\<close>

datatype chan_state = ChanOpen | ChanClosed

type_synonym chan = "chan_state option"

definition recv_ready :: "chan \<Rightarrow> bool" where
  "recv_ready ch = (ch = Some ChanClosed)"

definition close_chan :: "chan \<Rightarrow> panic + chan" where
  "close_chan ch =
     (case ch of None \<Rightarrow> Inl CloseOfNilChannel
      | Some ChanClosed \<Rightarrow> Inl CloseOfClosedChannel
      | Some ChanOpen \<Rightarrow> Inr (Some ChanClosed))"

text \<open>
  The struct \<open>Counter\<close>. The mutex is not a field: every method holds it from its first
  statement to its return, so a method is one atomic step. \<open>syncTask\<close> records that the
  goroutine running \<open>Sync\<close> was started and has not returned, \<open>finalizerSet\<close> that
  \<open>runtime.SetFinalizer\<close> was called.
\<close>

record counter =
  size_c :: duration
  curr :: window
  prev :: window
  syncInterval :: duration
  syncStopCh :: chan
  syncTask :: bool
  finalizerSet :: bool

definition NewCounter ::
  "time \<Rightarrow> duration \<Rightarrow> (unit \<Rightarrow> window \<times> 's) \<Rightarrow> duration \<Rightarrow> panic + counter \<times> 's" where
  "NewCounter t0 sz newWindow interval =
     (let (currWin, currStop) = newWindow ();
          (prevWin, u) = NewLocalWindow t0 ();
          c = \<lparr>size_c = sz, curr = currWin, prev = prevWin, syncInterval = interval,
               syncStopCh = None, syncTask = False, finalizerSet = False\<rparr>
      in Inr (if 0 < interval then c\<lparr>syncTask := True, finalizerSet := True\<rparr> else c,
              currStop))"

text \<open>The function given to \<open>runtime.SetFinalizer\<close>.\<close>

definition finalizer :: "counter \<Rightarrow> panic + counter" where
  "finalizer c =
     (case close_chan (syncStopCh c) of Inl e \<Rightarrow> Inl e
      | Inr ch \<Rightarrow> Inr (c\<lparr>syncStopCh := ch\<rparr>))"

definition Size :: "counter \<Rightarrow> duration" where
  "Size c = size_c c"

text \<open>The local variable \<open>diffSize\<close> of \<open>advance\<close>.\<close>

definition diffSize :: "counter \<Rightarrow> time \<Rightarrow> panic + int" where
  "diffSize c now =
     go_div (Time_Sub (Time_Truncate now (size_c c)) (Window_Start (curr c))) (size_c c)"

definition advance :: "counter \<Rightarrow> time \<Rightarrow> panic + counter" where
  "advance c now =
     (let newCurrStart = Time_Truncate now (size_c c)
      in case diffSize c now of
           Inl e \<Rightarrow> Inl e
         | Inr d \<Rightarrow>
             if 1 \<le> d then
               let newPrevCount = (if d = 1 then Window_Count (curr c) else 0)
               in Inr (c\<lparr>prev := Window_Reset (Time_Add newCurrStart (i64 (- size_c c)))
                                   newPrevCount (prev c),
                          curr := Window_Reset newCurrStart 0 (curr c)\<rparr>)
             else Inr c)"

text \<open>
  \<open>AddN\<close>: the deferred \<open>Sync\<close> of the current window runs after \<open>AddCount\<close>; a panic of
  \<open>advance\<close> leaves before either.
\<close>

definition AddN :: "(time \<Rightarrow> int \<Rightarrow> int) \<Rightarrow> counter \<Rightarrow> time \<Rightarrow> int \<Rightarrow> panic + counter" where
  "AddN ext c now n =
     (case advance c now of
        Inl e \<Rightarrow> Inl e
      | Inr c1 \<Rightarrow>
          let c2 = c1\<lparr>curr := Window_AddCount n (curr c1)\<rparr>
          in Inr (c2\<lparr>curr := Window_Sync ext now (curr c2)\<rparr>))"

text \<open>\<open>Increment\<close> reads the clock: \<open>clock\<close> is the value of \<open>time.Now()\<close>.\<close>

definition Increment :: "(time \<Rightarrow> int \<Rightarrow> int) \<Rightarrow> time \<Rightarrow> counter \<Rightarrow> panic + counter" where
  "Increment ext clock c = AddN ext c clock 1"

definition Count :: "(int \<Rightarrow> int) \<Rightarrow> counter \<Rightarrow> time \<Rightarrow> panic + int \<times> counter" where
  "Count oor c now =
     (case advance c now of
        Inl e \<Rightarrow> Inl e
      | Inr c1 \<Rightarrow>
          let elapsed = Time_Sub now (Window_Start (curr c1));
              weight = f64_div (f64_of_int64 (i64 (size_c c1 - elapsed)))
                               (f64_of_int64 (size_c c1));
              cnt = i64 (int64_of_f64 oor (f64_mul weight (f64_of_int64 (Window_Count (prev c1))))
                         + Window_Count (curr c1))
          in Inr (cnt, c1))"

text \<open>
  The loop of \<open>Sync\<close>. Its \<open>select\<close> waits for the timer and for a receive from
  \<open>syncStopCh\<close>; the timer fires after the interval, the receive can be chosen only when
  \<open>recv_ready\<close>. \<open>Sync_turn\<close> is one turn of the loop for the case chosen, \<open>now\<close> being
  the \<open>time.Now()\<close> of that turn: the stop case returns from \<open>Sync\<close>, the timer case
  synchronizes the current window and loops.
\<close>

datatype select_case = TimerCase | StopCase

definition select_ready :: "counter \<Rightarrow> select_case \<Rightarrow> bool" where
  "select_ready c sel =
     (case sel of TimerCase \<Rightarrow> True | StopCase \<Rightarrow> recv_ready (syncStopCh c))"

definition Sync_turn ::
  "(time \<Rightarrow> int \<Rightarrow> int) \<Rightarrow> counter \<Rightarrow> select_case \<Rightarrow> time \<Rightarrow> counter" where
  "Sync_turn ext c sel now =
     (case sel of StopCase \<Rightarrow> c\<lparr>syncTask := False\<rparr>
      | TimerCase \<Rightarrow> c\<lparr>curr := Window_Sync ext now (curr c)\<rparr>)"

text \<open>
  The calls a client makes, and the states a counter passes through: by calls that return,
  by turns of the \<open>Sync\<close> loop, and by the finalizer if it is set and returns.
\<close>

datatype call = Call_Increment time | Call_AddN time int | Call_Count time

fun call_now :: "call \<Rightarrow> time" where
  "call_now (Call_Increment clock) = clock"
| "call_now (Call_AddN now n) = now"
| "call_now (Call_Count now) = now"

fun perform ::
  "(time \<Rightarrow> int \<Rightarrow> int) \<Rightarrow> (int \<Rightarrow> int) \<Rightarrow> counter \<Rightarrow> call \<Rightarrow> panic + counter" where
  "perform ext oor c (Call_Increment clock) = Increment ext clock c"
| "perform ext oor c (Call_AddN now n) = AddN ext c now n"
| "perform ext oor c (Call_Count now) =
     (case Count oor c now of Inl e \<Rightarrow> Inl e | Inr r \<Rightarrow> Inr (snd r))"

inductive reaches ::
  "(time \<Rightarrow> int \<Rightarrow> int) \<Rightarrow> (int \<Rightarrow> int) \<Rightarrow> counter \<Rightarrow> counter \<Rightarrow> bool"
  for ext oor c where
  init: "reaches ext oor c c"
| call: "reaches ext oor c c1 \<Longrightarrow> perform ext oor c1 k = Inr c2 \<Longrightarrow> reaches ext oor c c2"
| sync: "reaches ext oor c c1 \<Longrightarrow> select_ready c1 sel \<Longrightarrow>
         reaches ext oor c (Sync_turn ext c1 sel now)"
| final: "reaches ext oor c c1 \<Longrightarrow> finalizerSet c1 \<Longrightarrow> finalizer c1 = Inr c2 \<Longrightarrow>
         reaches ext oor c c2"

section \<open>Example states\<close>

text \<open>
  A counter with a window of 60 nanoseconds whose current bucket starts at 120, and the
  state one rotation later. \<open>oor_x86\<close> is the out-of-range conversion of the x86-64
  instruction (always the least \<open>int64\<close>), \<open>ext_same\<close> a store that agrees with the
  local count.
\<close>

definition demo :: counter where
  "demo = \<lparr>size_c = 60,
           curr = \<lparr>start = 120, count = 10, backend = LocalWindow\<rparr>,
           prev = \<lparr>start = 60, count = 4, backend = LocalWindow\<rparr>,
           syncInterval = 0, syncStopCh = None, syncTask = False, finalizerSet = False\<rparr>"

definition demo_next :: counter where
  "demo_next = \<lparr>size_c = 60,
           curr = \<lparr>start = 180, count = 0, backend = LocalWindow\<rparr>,
           prev = \<lparr>start = 120, count = 10, backend = LocalWindow\<rparr>,
           syncInterval = 0, syncStopCh = None, syncTask = False, finalizerSet = False\<rparr>"

definition oor_x86 :: "int \<Rightarrow> int" where
  "oor_x86 t = - (2 ^ 63)"

definition ext_same :: "time \<Rightarrow> int \<Rightarrow> int" where
  "ext_same now n = n"

text \<open>
  The counter \<open>NewCounter\<close> builds for a window of 60 and a sync interval of 5 from local
  windows that start at 0, and that counter after \<open>AddN(130, 7)\<close>.
\<close>

definition fresh_sync :: counter where
  "fresh_sync = \<lparr>size_c = 60,
           curr = \<lparr>start = 0, count = 0, backend = LocalWindow\<rparr>,
           prev = \<lparr>start = 0, count = 0, backend = LocalWindow\<rparr>,
           syncInterval = 5, syncStopCh = None, syncTask = True, finalizerSet = True\<rparr>"

definition fresh_sync_used :: counter where
  "fresh_sync_used = \<lparr>size_c = 60,
           curr = \<lparr>start = 120, count = 7, backend = LocalWindow\<rparr>,
           prev = \<lparr>start = 60, count = 0, backend = LocalWindow\<rparr>,
           syncInterval = 5, syncStopCh = None, syncTask = True, finalizerSet = True\<rparr>"

text \<open>
  The counters \<open>NewCounter\<close> builds without a sync interval for the sizes 0 and 60, and
  a counter with a window of one minute whose current bucket holds 10.
\<close>

definition zero_size :: counter where
  "zero_size = \<lparr>size_c = 0,
           curr = \<lparr>start = 0, count = 0, backend = LocalWindow\<rparr>,
           prev = \<lparr>start = 0, count = 0, backend = LocalWindow\<rparr>,
           syncInterval = 0, syncStopCh = None, syncTask = False, finalizerSet = False\<rparr>"

definition fresh_plain :: counter where
  "fresh_plain = \<lparr>size_c = 60,
           curr = \<lparr>start = 0, count = 0, backend = LocalWindow\<rparr>,
           prev = \<lparr>start = 0, count = 0, backend = LocalWindow\<rparr>,
           syncInterval = 0, syncStopCh = None, syncTask = False, finalizerSet = False\<rparr>"

definition minute_counter :: counter where
  "minute_counter = \<lparr>size_c = 60000000000,
           curr = \<lparr>start = 63900000000000000000, count = 10, backend = LocalWindow\<rparr>,
           prev = \<lparr>start = 63899999940000000000, count = 3, backend = LocalWindow\<rparr>,
           syncInterval = 0, syncStopCh = None, syncTask = False, finalizerSet = False\<rparr>"

text \<open>
  A counter with a window of one minute, 16 seconds into its current bucket at the instant
  63900000016000000000, whose previous window holds 75.
\<close>

definition minute_75 :: counter where
  "minute_75 = \<lparr>size_c = 60000000000,
           curr = \<lparr>start = 63900000000000000000, count = 0, backend = LocalWindow\<rparr>,
           prev = \<lparr>start = 63899999940000000000, count = 75, backend = LocalWindow\<rparr>,
           syncInterval = 0, syncStopCh = None, syncTask = False, finalizerSet = False\<rparr>"

section \<open>Integer and time arithmetic\<close>

lemma i64_id: "in_int64 x \<Longrightarrow> i64 x = x"
  by (simp add: in_int64_def i64_def)

lemma i64_zero: "i64 0 = 0"
  by (simp add: i64_def)

lemma in_int64_Time_Sub: "in_int64 (Time_Sub t u)"
  by (simp add: in_int64_def Time_Sub_def minDuration_def maxDuration_def)

lemma Time_Sub_self: "Time_Sub t t = 0"
  by (simp add: Time_Sub_def minDuration_def maxDuration_def)

lemma go_quot_zero: "go_quot 0 b = 0"
  by (simp add: go_quot_def)

lemma abs_div_bounds:
  fixes a b :: int
  assumes "0 < b"
  shows "0 \<le> \<bar>a\<bar> div b" and "\<bar>a\<bar> div b \<le> \<bar>a\<bar>"
proof -
  show "0 \<le> \<bar>a\<bar> div b"
    using assms by (simp add: pos_imp_zdiv_nonneg_iff)
  have "\<bar>a\<bar> div b \<le> \<bar>a\<bar> div 1"
    using assms by (intro zdiv_mono2) auto
  then show "\<bar>a\<bar> div b \<le> \<bar>a\<bar>"
    by simp
qed

lemma go_quot_pos_range:
  assumes "0 < b" and "in_int64 a"
  shows "in_int64 (go_quot a b)"
  using assms abs_div_bounds [OF assms(1), of a]
  by (auto simp: go_quot_def in_int64_def sgn_if)

lemma go_quot_less_one_iff:
  assumes "0 < b"
  shows "go_quot a b < 1 \<longleftrightarrow> a < b"
proof (cases "0 \<le> a")
  case True
  have "0 < a div b \<longleftrightarrow> b \<le> a"
    using assms by (rule pos_imp_zdiv_pos_iff)
  then show ?thesis
    using True assms by (auto simp: go_quot_def sgn_if)
next
  case False
  then show ?thesis
    using assms abs_div_bounds [OF assms, of a] by (auto simp: go_quot_def sgn_if)
qed

lemma i64_neg_size: "0 < s \<Longrightarrow> in_int64 s \<Longrightarrow> i64 (- s) = - s"
  by (rule i64_id) (simp add: in_int64_def)

section \<open>The advance step\<close>

lemma diffSize_pos:
  assumes "0 < size_c c"
  shows "diffSize c now =
    Inr (go_quot (Time_Sub (now - now mod size_c c) (start (curr c))) (size_c c))"
  using assms go_quot_pos_range [OF assms in_int64_Time_Sub]
  by (simp add: diffSize_def go_div_def Time_Truncate_def Window_Start_def i64_id)

lemma diffSize_zero_size: "size_c c = 0 \<Longrightarrow> diffSize c now = Inl DivideByZero"
  by (simp add: diffSize_def go_div_def)

lemma diffSize_nonzero_size: "size_c c \<noteq> 0 \<Longrightarrow> \<exists>d. diffSize c now = Inr d"
  by (simp add: diffSize_def go_div_def)

lemma advance_idem:
  assumes "advance c now = Inr c'"
  shows "advance c' now = Inr c'"
proof (cases "size_c c = 0")
  case True
  then show ?thesis
    using assms by (simp add: advance_def diffSize_zero_size)
next
  case False
  then obtain d where d: "diffSize c now = Inr d"
    using diffSize_nonzero_size by blast
  show ?thesis
  proof (cases "1 \<le> d")
    case True
    let ?T = "Time_Truncate now (size_c c)"
    from assms d True have sz: "size_c c' = size_c c" and st: "start (curr c') = ?T"
      by (auto simp: advance_def Window_Reset_def Let_def)
    have "diffSize c' now = Inr 0"
      using False
      by (simp add: diffSize_def sz st Window_Start_def Time_Sub_self go_div_def
          go_quot_zero i64_zero)
    then show ?thesis
      by (simp add: advance_def)
  next
    case no: False
    with assms d have "c' = c"
      by (simp add: advance_def)
    with d no show ?thesis
      by (simp add: advance_def)
  qed
qed

text \<open>
  C2. With a positive window size, \<open>advance\<close> computes \<open>newCurrStart = now - now mod size\<close>
  and \<open>diffSize\<close>, the truncated quotient of \<open>newCurrStart.Sub(curr.Start())\<close> by the size.
  When \<open>diffSize\<close> is at least 1 the two windows are reset once, whatever the value of
  \<open>diffSize\<close>: the previous window to start \<open>newCurrStart - size\<close> with the count of the
  current window if \<open>diffSize = 1\<close> and 0 otherwise, the current window to start
  \<open>newCurrStart\<close> with count 0. Nothing else of the counter changes.
\<close>

theorem advance_rotates_once:
  assumes "0 < size_c c" and "in_int64 (size_c c)"
  shows "\<exists>d. diffSize c now = Inr d \<and>
           d = go_quot (Time_Sub (now - now mod size_c c) (start (curr c))) (size_c c) \<and>
           (1 \<le> d \<longrightarrow>
              advance c now =
                Inr (c\<lparr>prev := (prev c)\<lparr>start := now - now mod size_c c - size_c c,
                                         count := (if d = 1 then count (curr c) else 0)\<rparr>,
                       curr := (curr c)\<lparr>start := now - now mod size_c c, count := 0\<rparr>\<rparr>))"
  using assms
  by (simp add: diffSize_pos advance_def Time_Truncate_def Window_Reset_def Window_Count_def
      Time_Add_def i64_neg_size Let_def)

theorem advance_rotates_once_witness:
  "0 < size_c demo \<and> in_int64 (size_c demo) \<and> diffSize demo 185 = Inr 1 \<and>
   advance demo 185 = Inr demo_next \<and>
   diffSize demo 250 = Inr 2 \<and>
   advance demo 250 =
     Inr (demo\<lparr>prev := \<lparr>start = 180, count = 0, backend = LocalWindow\<rparr>,
               curr := \<lparr>start = 240, count = 0, backend = LocalWindow\<rparr>\<rparr>)"
proof -
  have h: "0 < size_c demo" "in_int64 (size_c demo)"
    by (simp_all add: demo_def in_int64_def)
  show ?thesis
    using h advance_rotates_once [OF h, of 185] advance_rotates_once [OF h, of 250]
    by (simp add: demo_def demo_next_def Time_Sub_def minDuration_def maxDuration_def
        go_quot_def)
qed

text \<open>
  C7. With a positive window size \<open>advance\<close> never panics, it returns the counter as it was
  (both windows, start and count) whenever \<open>diffSize\<close> is below 1, and \<open>diffSize\<close> is
  below 1 for every \<open>now\<close> earlier than the start of the current window.
\<close>

theorem advance_no_rotation:
  assumes "0 < size_c c"
  shows "\<exists>d. diffSize c now = Inr d \<and> (d < 1 \<longrightarrow> advance c now = Inr c) \<and>
             (now < start (curr c) \<longrightarrow> d < 1)"
proof -
  let ?T = "now - now mod size_c c"
  let ?d = "go_quot (Time_Sub ?T (start (curr c))) (size_c c)"
  have d: "diffSize c now = Inr ?d"
    using assms by (rule diffSize_pos)
  have a: "?d < 1 \<longrightarrow> advance c now = Inr c"
    by (simp add: advance_def d)
  have "?d < 1" if "now < start (curr c)"
  proof -
    have "0 \<le> now mod size_c c"
      using assms by simp
    with that have "?T - start (curr c) < 0"
      by linarith
    then have "Time_Sub ?T (start (curr c)) < 0"
      by (simp add: Time_Sub_def minDuration_def maxDuration_def)
    then show ?thesis
      using assms by (simp add: go_quot_less_one_iff)
  qed
  with d a show ?thesis
    by blast
qed

theorem advance_no_rotation_witness:
  "0 < size_c demo \<and> (30::int) < start (curr demo) \<and> advance demo 30 = Inr demo \<and>
   advance demo 179 = Inr demo"
proof -
  have h: "0 < size_c demo"
    by (simp add: demo_def)
  show ?thesis
    using h advance_no_rotation [OF h, of 30] advance_no_rotation [OF h, of 179]
    by (auto simp: demo_def diffSize_def go_div_def go_quot_def i64_def Time_Sub_def
        Time_Truncate_def Window_Start_def minDuration_def maxDuration_def)
qed

section \<open>Construction and the background task\<close>

lemma advance_frame:
  assumes "advance c now = Inr c'"
  shows "size_c c' = size_c c \<and> syncInterval c' = syncInterval c \<and>
         syncStopCh c' = syncStopCh c \<and> syncTask c' = syncTask c \<and>
         finalizerSet c' = finalizerSet c \<and>
         backend (prev c') = backend (prev c) \<and> backend (curr c') = backend (curr c)"
  using assms
  by (auto simp: advance_def Let_def Window_Reset_def split: sum.splits if_splits)

lemma Window_Sync_frame:
  "start (Window_Sync ext now w) = start w \<and> backend (Window_Sync ext now w) = backend w"
  by (simp add: Window_Sync_def split: backend.splits)

lemma perform_frame:
  assumes "perform ext oor c k = Inr c'"
  shows "size_c c' = size_c c \<and> syncInterval c' = syncInterval c \<and>
         syncStopCh c' = syncStopCh c \<and> syncTask c' = syncTask c \<and>
         finalizerSet c' = finalizerSet c \<and> backend (prev c') = backend (prev c)"
proof (cases k)
  case (Call_Increment clock)
  with assms obtain c1 where "advance c clock = Inr c1"
    and "c' = c1\<lparr>curr := Window_Sync ext clock (Window_AddCount 1 (curr c1))\<rparr>"
    by (auto simp: Increment_def AddN_def Let_def split: sum.splits)
  then show ?thesis using advance_frame [of c clock c1] by simp
next
  case (Call_AddN now n)
  with assms obtain c1 where "advance c now = Inr c1"
    and "c' = c1\<lparr>curr := Window_Sync ext now (Window_AddCount n (curr c1))\<rparr>"
    by (auto simp: AddN_def Let_def split: sum.splits)
  then show ?thesis using advance_frame [of c now c1] by simp
next
  case (Call_Count now)
  with assms have "advance c now = Inr c'"
    by (auto simp: Count_def Let_def split: sum.splits)
  then show ?thesis using advance_frame [of c now c'] by simp
qed

lemma reaches_nil_chan:
  assumes "reaches ext oor c c'" and "syncStopCh c = None"
  shows "syncStopCh c' = None \<and> syncTask c' = syncTask c \<and> finalizerSet c' = finalizerSet c
     \<and> size_c c' = size_c c \<and> backend (prev c') = backend (prev c)"
  using assms
proof (induction rule: reaches.induct)
  case init
  then show ?case by simp
next
  case (call c1 k c2)
  then show ?case using perform_frame [of ext oor c1 k c2] by simp
next
  case (sync c1 sel now)
  then have "sel = TimerCase"
    by (cases sel) (simp_all add: select_ready_def recv_ready_def)
  with sync show ?case by (simp add: Sync_turn_def)
next
  case (final c1 c2)
  then show ?case by (simp add: finalizer_def close_chan_def)
qed

text \<open>
  C6. \<open>NewCounter\<close> leaves \<open>syncStopCh\<close> nil, also when the sync interval is positive,
  and nothing a counter goes through afterwards assigns it. In every state the counter
  reaches, the stop case of the \<open>select\<close> in \<open>Sync\<close> cannot be chosen, so a started
  \<open>Sync\<close> never returns, and the finalizer closes a nil channel, which panics.
\<close>

theorem syncStopCh_stays_nil:
  assumes "NewCounter t0 sz newWindow interval = Inr (c, stop)"
    and "reaches ext oor c c'"
  shows "syncStopCh c' = None \<and> \<not> select_ready c' StopCase \<and>
         finalizer c' = Inl CloseOfNilChannel \<and>
         syncTask c' = (0 < interval) \<and> finalizerSet c' = (0 < interval)"
proof -
  from assms(1) have c: "syncStopCh c = None" "syncTask c = (0 < interval)"
    "finalizerSet c = (0 < interval)"
    by (auto simp: NewCounter_def NewLocalWindow_def Let_def split: prod.splits if_splits)
  from reaches_nil_chan [OF assms(2) c(1)] c show ?thesis
    by (simp add: select_ready_def recv_ready_def finalizer_def close_chan_def)
qed

theorem syncStopCh_stays_nil_witness:
  "NewCounter 0 60 (NewLocalWindow 0) 5 = Inr (fresh_sync, ()) \<and>
   reaches ext_same oor_x86 fresh_sync fresh_sync_used \<and>
   syncStopCh fresh_sync_used = None \<and> \<not> select_ready fresh_sync_used StopCase \<and>
   finalizer fresh_sync_used = Inl CloseOfNilChannel \<and> syncTask fresh_sync_used"
proof -
  have n: "NewCounter 0 60 (NewLocalWindow 0) 5 = Inr (fresh_sync, ())"
    by (simp add: NewCounter_def NewLocalWindow_def fresh_sync_def)
  have "perform ext_same oor_x86 fresh_sync (Call_AddN 130 7) = Inr fresh_sync_used"
    by (simp add: fresh_sync_def fresh_sync_used_def AddN_def advance_def diffSize_def
        go_div_def go_quot_def i64_def Time_Sub_def Time_Truncate_def Time_Add_def
        Window_Start_def Window_Count_def Window_Reset_def Window_AddCount_def Window_Sync_def
        minDuration_def maxDuration_def)
  then have r: "reaches ext_same oor_x86 fresh_sync fresh_sync_used"
    by (rule reaches.call [OF reaches.init])
  show ?thesis
    using n r syncStopCh_stays_nil [OF n r] by simp
qed

text \<open>
  C8. Whatever the window factory returns for the current slot, \<open>NewCounter\<close> fills the
  previous slot with a fresh \<open>LocalWindow\<close>; the factory's window and stop function go
  to the current slot and to the caller unchanged.
\<close>

theorem NewCounter_prev_local:
  "\<exists>c stop. NewCounter t0 sz newWindow interval = Inr (c, stop) \<and>
     prev c = fst (NewLocalWindow t0 ()) \<and> backend (prev c) = LocalWindow \<and>
     curr c = fst (newWindow ()) \<and> stop = snd (newWindow ())"
  by (auto simp: NewCounter_def NewLocalWindow_def Let_def split: prod.splits)

lemma NewCounter_eq:
  "NewCounter t0 sz newWindow interval =
     Inr (\<lparr>size_c = sz, curr = fst (newWindow ()),
           prev = \<lparr>start = t0, count = 0, backend = LocalWindow\<rparr>,
           syncInterval = interval, syncStopCh = None, syncTask = (0 < interval),
           finalizerSet = (0 < interval)\<rparr>, snd (newWindow ()))"
  by (simp add: NewCounter_def NewLocalWindow_def Let_def split: prod.splits)

text \<open>
  C3, as stated, fails: \<open>NewCounter\<close> returns a counter for the size 0 and for the
  size \<open>- 60\<close>.
\<close>

theorem NewCounter_nonpositive_size_counterexample:
  "NewCounter 0 0 (NewLocalWindow 0) 0 = Inr (zero_size, ()) \<and>
   NewCounter 0 (- 60) (NewLocalWindow 0) 0 = Inr (zero_size\<lparr>size_c := - 60\<rparr>, ())"
  by (simp add: NewCounter_def NewLocalWindow_def zero_size_def)

text \<open>
  C3, as amended. \<open>NewCounter\<close> accepts every size: it never fails and returns a counter
  whose \<open>Size()\<close> is the size given, zero and negative sizes included. A zero size shows
  only at the first \<open>AddN\<close>, \<open>Increment\<close> or \<open>Count\<close>, which panics in \<open>advance\<close> with
  an integer division by zero; with any other size \<open>advance\<close> does not panic.
\<close>

theorem NewCounter_accepts_any_size:
  "\<exists>c stop. NewCounter t0 sz newWindow interval = Inr (c, stop) \<and> Size c = sz \<and>
     (sz = 0 \<longrightarrow> advance c now = Inl DivideByZero \<and> AddN ext c now n = Inl DivideByZero \<and>
        Increment ext now c = Inl DivideByZero \<and> Count oor c now = Inl DivideByZero) \<and>
     (sz \<noteq> 0 \<longrightarrow> (\<exists>c'. advance c now = Inr c'))"
proof -
  obtain c stop where n: "NewCounter t0 sz newWindow interval = Inr (c, stop)"
    and s: "size_c c = sz"
    by (simp add: NewCounter_eq)
  have z: "advance c now = Inl DivideByZero" if "sz = 0"
    using that s by (simp add: advance_def diffSize_zero_size)
  have "\<exists>c'. advance c now = Inr c'" if "sz \<noteq> 0"
  proof -
    from that s obtain d where "diffSize c now = Inr d"
      using diffSize_nonzero_size [of c now] by auto
    then show ?thesis by (simp add: advance_def Let_def)
  qed
  with n s z show ?thesis
    by (auto simp: Size_def AddN_def Increment_def Count_def)
qed

theorem NewCounter_accepts_any_size_witness:
  "NewCounter 0 0 (NewLocalWindow 0) 0 = Inr (zero_size, ()) \<and> Size zero_size = 0 \<and>
   AddN ext_same zero_size 130 7 = Inl DivideByZero \<and>
   Count oor_x86 zero_size 130 = Inl DivideByZero \<and>
   NewCounter 0 (- 60) (NewLocalWindow 0) 0 = Inr (zero_size\<lparr>size_c := - 60\<rparr>, ()) \<and>
   advance (zero_size\<lparr>size_c := - 60\<rparr>) 130 = Inr (zero_size\<lparr>size_c := - 60\<rparr>)"
proof -
  have n: "NewCounter 0 0 (NewLocalWindow 0) 0 = Inr (zero_size, ())"
    "NewCounter 0 (- 60) (NewLocalWindow 0) 0 = Inr (zero_size\<lparr>size_c := - 60\<rparr>, ())"
    by (simp_all add: NewCounter_def NewLocalWindow_def zero_size_def)
  have a: "advance (zero_size\<lparr>size_c := - 60\<rparr>) 130 = Inr (zero_size\<lparr>size_c := - 60\<rparr>)"
    by (simp add: zero_size_def advance_def diffSize_def go_div_def go_quot_def i64_def
        Time_Sub_def Time_Truncate_def Window_Start_def minDuration_def maxDuration_def)
  show ?thesis
    using n a
      NewCounter_accepts_any_size
        [where ?t0.0 = 0 and sz = 0 and newWindow = "NewLocalWindow 0" and interval = 0
          and now = 130 and ext = ext_same and n = 7 and oor = oor_x86]
      NewCounter_accepts_any_size
        [where ?t0.0 = 0 and sz = "- 60" and newWindow = "NewLocalWindow 0" and interval = 0
          and now = 130 and ext = ext_same and n = 7 and oor = oor_x86]
    by auto
qed

text \<open>
  C5, as stated, fails: \<open>Counter\<close> has no \<open>Stop\<close> method. For the counter built with a
  sync interval of 5, nothing it can go through (no call, no turn of \<open>Sync\<close>, not the
  finalizer) ends the background task.
\<close>

theorem no_operation_stops_sync_counterexample:
  "NewCounter 0 60 (NewLocalWindow 0) 5 = Inr (fresh_sync, ()) \<and>
   \<not> (\<exists>c'. reaches ext_same oor_x86 fresh_sync c' \<and> \<not> syncTask c')"
proof -
  have n: "NewCounter 0 60 (NewLocalWindow 0) 5 = Inr (fresh_sync, ())"
    by (simp add: NewCounter_def NewLocalWindow_def fresh_sync_def)
  have "syncTask c'" if "reaches ext_same oor_x86 fresh_sync c'" for c'
    using reaches_nil_chan [OF that] by (simp add: fresh_sync_def)
  with n show ?thesis
    by blast
qed

text \<open>
  C5, as amended. There is no explicit teardown. \<open>NewCounter\<close> starts the background task
  and registers the finalizer exactly when the sync interval is positive, and no
  \<open>Increment\<close>, \<open>AddN\<close> or \<open>Count\<close> touches the task, the finalizer or the stop
  channel: the finalizer is the only teardown of the task, and with a sync interval of zero
  or less there is nothing to tear down.
\<close>

theorem teardown_by_finalizer_only:
  "(NewCounter t0 sz newWindow interval = Inr (c, stop) \<longrightarrow>
      syncTask c = (0 < interval) \<and> finalizerSet c = (0 < interval)) \<and>
   (perform ext oor c1 k = Inr c2 \<longrightarrow>
      syncTask c2 = syncTask c1 \<and> finalizerSet c2 = finalizerSet c1 \<and>
      syncStopCh c2 = syncStopCh c1)"
  using perform_frame [of ext oor c1 k c2]
  by (auto simp: NewCounter_eq)

theorem teardown_by_finalizer_only_witness:
  "NewCounter 0 60 (NewLocalWindow 0) 5 = Inr (fresh_sync, ()) \<and>
   syncTask fresh_sync \<and> finalizerSet fresh_sync \<and>
   NewCounter 0 60 (NewLocalWindow 0) 0 = Inr (fresh_plain, ()) \<and>
   \<not> syncTask fresh_plain \<and> \<not> finalizerSet fresh_plain \<and>
   perform ext_same oor_x86 fresh_sync (Call_AddN 130 7) = Inr fresh_sync_used \<and>
   syncTask fresh_sync_used \<and> finalizerSet fresh_sync_used \<and> syncStopCh fresh_sync_used = None"
proof -
  have n: "NewCounter 0 60 (NewLocalWindow 0) 5 = Inr (fresh_sync, ())"
    "NewCounter 0 60 (NewLocalWindow 0) 0 = Inr (fresh_plain, ())"
    by (simp_all add: NewCounter_def NewLocalWindow_def fresh_sync_def fresh_plain_def)
  have p: "perform ext_same oor_x86 fresh_sync (Call_AddN 130 7) = Inr fresh_sync_used"
    by (simp add: fresh_sync_def fresh_sync_used_def AddN_def advance_def diffSize_def
        go_div_def go_quot_def i64_def Time_Sub_def Time_Truncate_def Time_Add_def
        Window_Start_def Window_Count_def Window_Reset_def Window_AddCount_def Window_Sync_def
        minDuration_def maxDuration_def)
  show ?thesis
    using n p
      teardown_by_finalizer_only [of 0 60 "NewLocalWindow 0" 5 fresh_sync "()" ext_same oor_x86
        fresh_sync "Call_AddN 130 7" fresh_sync_used]
      teardown_by_finalizer_only [of 0 60 "NewLocalWindow 0" 0 fresh_plain "()" ext_same oor_x86
        fresh_sync "Call_AddN 130 7" fresh_sync_used]
    by (simp add: fresh_sync_def)
qed

section \<open>The layout of the two windows\<close>

lemma perform_advance:
  assumes "advance c (call_now k) = Inr c1"
  shows "\<exists>c'. perform ext oor c k = Inr c' \<and> size_c c' = size_c c1 \<and>
          start (curr c') = start (curr c1) \<and> start (prev c') = start (prev c1)"
  using assms
  by (cases k)
     (auto simp: Increment_def AddN_def Count_def Let_def Window_AddCount_def Window_Sync_def
       split: backend.splits)

lemma advance_starts:
  assumes "0 < size_c c" and "in_int64 (size_c c)"
  shows "\<exists>c1. advance c now = Inr c1 \<and> size_c c1 = size_c c \<and>
     (if Time_Sub (now - now mod size_c c) (start (curr c)) < size_c c
      then c1 = c
      else start (curr c1) = now - now mod size_c c \<and>
           start (prev c1) = now - now mod size_c c - size_c c)"
proof -
  let ?d = "go_quot (Time_Sub (now - now mod size_c c) (start (curr c))) (size_c c)"
  have d: "diffSize c now = Inr ?d"
    using assms(1) by (rule diffSize_pos)
  have lt: "?d < 1 \<longleftrightarrow> Time_Sub (now - now mod size_c c) (start (curr c)) < size_c c"
    using assms(1) by (rule go_quot_less_one_iff)
  show ?thesis
  proof (cases "?d < 1")
    case True
    then show ?thesis using lt d by (simp add: advance_def)
  next
    case False
    then show ?thesis using lt d assms
      by (simp add: advance_def Let_def Window_Reset_def Time_Add_def Time_Truncate_def
          i64_neg_size)
  qed
qed

lemma aligned_no_rotation:
  fixes s S now :: int
  assumes "0 < s" and "in_int64 s" and "S mod s = 0" and "S \<le> now"
    and "Time_Sub (now - now mod s) S < s"
  shows "now - now mod s = S"
proof -
  let ?T = "now - now mod s"
  have "s \<le> maxDuration"
    using assms(2) by (simp add: in_int64_def maxDuration_def)
  with assms(5) have lt: "?T - S < s"
    by (auto simp: Time_Sub_def split: if_splits)
  have dv: "s dvd ?T - S"
    using assms(3) by (simp add: mod_eq_0_iff_dvd dvd_diff)
  have "(now - S) mod s = now mod s"
    using assms(3) mod_diff_right_eq [of now S s] by simp
  moreover have "(now - S) mod s \<le> now - S"
    using assms(4) by (intro zmod_le_nonneg_dividend) simp
  ultimately have ge: "0 \<le> ?T - S"
    by simp
  have "?T - S = 0"
  proof (rule ccontr)
    assume "?T - S \<noteq> 0"
    with ge have "0 < ?T - S" by simp
    with dv have "s \<le> ?T - S" by (rule zdvd_imp_le)
    with lt show False by simp
  qed
  then show ?thesis by simp
qed


lemma adv_demo_30: "advance demo 30 = Inr demo"
  by (simp add: demo_def advance_def diffSize_def go_div_def go_quot_def i64_def Time_Sub_def
      Time_Truncate_def Window_Start_def minDuration_def maxDuration_def)

lemma weighted_150_60_4:
  "f64_trunc (f64_mul (f64_div (f64_of_int64 150) (f64_of_int64 60)) (f64_of_int64 4)) = 10"
  by code_simp

lemma Count_demo_30: "Count oor_x86 demo 30 = Inr (20, demo)"
proof -
  have "i64 (size_c demo - Time_Sub 30 (Window_Start (curr demo))) = 150"
    "size_c demo = 60" "Window_Count (prev demo) = 4" "Window_Count (curr demo) = 10"
    by (simp_all add: demo_def i64_def Time_Sub_def Window_Start_def Window_Count_def
        minDuration_def maxDuration_def)
  then show ?thesis
    by (simp add: Count_def adv_demo_30 int64_of_f64_def weighted_150_60_4 in_int64_def i64_def)
qed

lemma Count_eval:
  assumes "advance c now = Inr c1"
    and "i64 (size_c c1 - Time_Sub now (start (curr c1))) = x"
    and "int64_of_f64 oor (f64_mul (f64_div (f64_of_int64 x) (f64_of_int64 (size_c c1)))
           (f64_of_int64 (count (prev c1)))) = t"
  shows "Count oor c now = Inr (i64 (t + count (curr c1)), c1)"
  using assms by (simp add: Count_def Window_Start_def Window_Count_def)

lemma weighted_59_60_10:
  "f64_trunc (f64_mul (f64_div (f64_of_int64 59000000000) (f64_of_int64 60000000000))
     (f64_of_int64 10)) = 9"
  by code_simp

text \<open>
  C4, as stated, fails twice. \<open>NewCounter\<close> resets no window, so right after
  construction both windows start where their constructors put them, here at the same
  instant. And a \<open>Count\<close> at an instant before the current bucket leaves the start of the
  current window where it was, which is not the bucket of that instant.
\<close>

theorem bucket_invariant_counterexample:
  "NewCounter 0 60 (NewLocalWindow 0) 0 = Inr (fresh_plain, ()) \<and>
   start (prev fresh_plain) \<noteq> start (curr fresh_plain) - size_c fresh_plain \<and>
   Count oor_x86 demo 30 = Inr (20, demo) \<and>
   start (curr demo) \<noteq> Time_Truncate 30 (size_c demo)"
  by (simp add: NewCounter_def NewLocalWindow_def fresh_plain_def Count_demo_30)
     (simp add: demo_def Time_Truncate_def)

text \<open>
  C4, as amended. With a positive size, every \<open>Increment\<close>, \<open>AddN\<close> and \<open>Count\<close>
  returns and either leaves the starts of both windows as they were or sets the start of
  the current window to \<open>now\<close> truncated to a multiple of the size and the start of the
  previous window one size before it. So when the current window is aligned and does not
  start after \<open>now\<close>, it starts at the bucket of \<open>now\<close> afterwards;
  \<open>prev.start = curr.start - size\<close> is kept once it holds; and a \<open>now\<close> before the current
  window leaves its start unchanged.
\<close>

theorem windows_after_call:
  assumes "0 < size_c c" and "in_int64 (size_c c)"
  shows "\<exists>c'. perform ext oor c k = Inr c' \<and> size_c c' = size_c c \<and>
     (start (curr c') = start (curr c) \<and> start (prev c') = start (prev c) \<or>
      start (curr c') = call_now k - call_now k mod size_c c \<and>
      start (prev c') = start (curr c') - size_c c) \<and>
     (start (curr c) mod size_c c = 0 \<and> start (curr c) \<le> call_now k \<longrightarrow>
        start (curr c') = call_now k - call_now k mod size_c c) \<and>
     (start (prev c) = start (curr c) - size_c c \<longrightarrow>
        start (prev c') = start (curr c') - size_c c) \<and>
     (call_now k < start (curr c) \<longrightarrow> start (curr c') = start (curr c))"
proof -
  let ?now = "call_now k"
  let ?T = "?now - ?now mod size_c c"
  obtain c1 where a: "advance c ?now = Inr c1" and sz: "size_c c1 = size_c c"
    and r: "if Time_Sub ?T (start (curr c)) < size_c c then c1 = c
            else start (curr c1) = ?T \<and> start (prev c1) = ?T - size_c c"
    using advance_starts [OF assms, of ?now] by blast
  obtain c' where p: "perform ext oor c k = Inr c'" and sz': "size_c c' = size_c c1"
    and cs: "start (curr c') = start (curr c1)" and ps: "start (prev c') = start (prev c1)"
    using perform_advance [OF a, of ext oor] by blast
  have al: "start (curr c1) = ?T"
    if "start (curr c) mod size_c c = 0" and "start (curr c) \<le> ?now"
  proof (cases "Time_Sub ?T (start (curr c)) < size_c c")
    case True
    then have "?T = start (curr c)"
      using assms that by (intro aligned_no_rotation)
    with True r show ?thesis by simp
  next
    case False
    with r show ?thesis by simp
  qed
  have bk: "start (curr c1) = start (curr c)" if "?now < start (curr c)"
  proof -
    have "0 \<le> ?now mod size_c c"
      using assms(1) by simp
    with that have "?T - start (curr c) < 0"
      by linarith
    then have "Time_Sub ?T (start (curr c)) < 0"
      by (simp add: Time_Sub_def minDuration_def maxDuration_def)
    with assms(1) r show ?thesis
      by (simp split: if_splits)
  qed
  from r al bk show ?thesis
    by (auto simp: p sz sz' cs ps split: if_splits)
qed

theorem windows_after_call_witness:
  "0 < size_c demo \<and> in_int64 (size_c demo) \<and>
   start (curr demo) mod size_c demo = 0 \<and> start (curr demo) \<le> call_now (Call_AddN 185 1) \<and>
   start (prev demo) = start (curr demo) - size_c demo \<and>
   perform ext_same oor_x86 demo (Call_AddN 185 1) =
     Inr (demo_next\<lparr>curr := \<lparr>start = 180, count = 1, backend = LocalWindow\<rparr>\<rparr>) \<and>
   call_now (Call_Count 30) < start (curr demo) \<and>
   perform ext_same oor_x86 demo (Call_Count 30) = Inr demo"
proof -
  have h: "0 < size_c demo" "in_int64 (size_c demo)"
    by (simp_all add: demo_def in_int64_def)
  have a: "perform ext_same oor_x86 demo (Call_AddN 185 1) =
     Inr (demo_next\<lparr>curr := \<lparr>start = 180, count = 1, backend = LocalWindow\<rparr>\<rparr>)"
    by (simp add: demo_def demo_next_def AddN_def advance_def diffSize_def
       go_div_def go_quot_def i64_def Time_Sub_def Time_Truncate_def Time_Add_def
       Window_Start_def Window_Count_def Window_Reset_def Window_AddCount_def Window_Sync_def
       minDuration_def maxDuration_def)
  have b: "perform ext_same oor_x86 demo (Call_Count 30) = Inr demo"
    by (simp add: Count_demo_30)
  show ?thesis
    using h a b windows_after_call [OF h, of ext_same oor_x86 "Call_AddN 185 1"]
      windows_after_call [OF h, of ext_same oor_x86 "Call_Count 30"]
    by (simp add: demo_def)
qed

section \<open>The weighted count\<close>

lemma advance_pos:
  assumes "0 < size_c c" and "in_int64 (size_c c)"
    and "go_quot (Time_Sub (now - now mod size_c c) (start (curr c))) (size_c c) = d"
    and "1 \<le> d"
  shows "advance c now =
           Inr (c\<lparr>prev := (prev c)\<lparr>start := now - now mod size_c c - size_c c,
                                    count := (if d = 1 then count (curr c) else 0)\<rparr>,
                  curr := (curr c)\<lparr>start := now - now mod size_c c, count := 0\<rparr>\<rparr>)"
  using assms
  by (simp add: diffSize_pos advance_def Time_Truncate_def Window_Reset_def Window_Count_def
      Time_Add_def i64_neg_size Let_def)

text \<open>
  C9. With a window of 60 seconds and a current bucket that starts at the aligned instant
  \<open>t0\<close> and holds 10, \<open>Count\<close> at \<open>t0 + 61s\<close> rotates once: the previous window takes the
  10 and starts at \<open>t0\<close>, the current window is empty and starts at \<open>t0 + 60s\<close>, and the
  result is 9.
\<close>

theorem Count_one_bucket_later:
  assumes "size_c c = 60000000000" and "start (curr c) = t0" and "count (curr c) = 10"
    and "t0 mod 60000000000 = 0"
  shows "\<exists>c'. Count oor c (t0 + 61000000000) = Inr (9, c') \<and>
           count (prev c') = 10 \<and> count (curr c') = 0 \<and>
           start (curr c') = t0 + 60000000000 \<and> start (prev c') = t0"
proof -
  let ?now = "t0 + 61000000000"
  have "?now mod 60000000000 = (t0 mod 60000000000 + 61000000000) mod 60000000000"
    by (simp only: mod_add_left_eq)
  then have m: "?now mod 60000000000 = 1000000000"
    using assms(4) by simp
  have T: "?now - ?now mod 60000000000 = t0 + 60000000000"
    by (simp add: m)
  have q: "go_quot (Time_Sub (?now - ?now mod size_c c) (start (curr c))) (size_c c) = 1"
    unfolding assms(1,2) T
    by (simp add: Time_Sub_def minDuration_def maxDuration_def go_quot_def)
  let ?c1 = "c\<lparr>prev := (prev c)\<lparr>start := t0, count := 10\<rparr>,
               curr := (curr c)\<lparr>start := t0 + 60000000000, count := 0\<rparr>\<rparr>"
  have "0 < size_c c" and "in_int64 (size_c c)"
    by (simp_all add: assms(1) in_int64_def)
  from advance_pos [OF this q] have a: "advance c ?now = Inr ?c1"
    unfolding assms(1) T by (simp add: assms(3))
  have x: "i64 (size_c ?c1 - Time_Sub ?now (start (curr ?c1))) = 59000000000"
    by (simp add: assms(1) Time_Sub_def minDuration_def maxDuration_def i64_def)
  have t: "int64_of_f64 oor (f64_mul (f64_div (f64_of_int64 59000000000)
             (f64_of_int64 (size_c ?c1))) (f64_of_int64 (count (prev ?c1)))) = 9"
    by (simp add: assms(1) int64_of_f64_def weighted_59_60_10 in_int64_def)
  have "Count oor c ?now = Inr (i64 (9 + count (curr ?c1)), ?c1)"
    using a x t by (rule Count_eval)
  then show ?thesis
    by (simp add: i64_def)
qed

theorem Count_one_bucket_later_witness:
  "size_c minute_counter = 60000000000 \<and> count (curr minute_counter) = 10 \<and>
   start (curr minute_counter) mod 60000000000 = 0 \<and>
   Count oor_x86 minute_counter (start (curr minute_counter) + 61000000000) =
     Inr (9, minute_counter\<lparr>
       prev := \<lparr>start = 63900000000000000000, count = 10, backend = LocalWindow\<rparr>,
       curr := \<lparr>start = 63900000060000000000, count = 0, backend = LocalWindow\<rparr>\<rparr>)"
proof -
  have h: "size_c minute_counter = 60000000000" "start (curr minute_counter) = 63900000000000000000"
    "count (curr minute_counter) = 10" "63900000000000000000 mod 60000000000 = (0::int)"
    by (simp_all add: minute_counter_def)
  obtain c' where c: "Count oor_x86 minute_counter (63900000000000000000 + 61000000000) = Inr (9, c')"
    "count (prev c') = 10"  "count (curr c') = 0" "start (curr c') = 63900000000000000000 + 60000000000"
    "start (prev c') = 63900000000000000000"
    using Count_one_bucket_later [OF h, of oor_x86] by blast
  from c(1) have "advance minute_counter (63900000000000000000 + 61000000000) = Inr c'"
    by (auto simp: Count_def Let_def split: sum.splits)
  then have "backend (prev c') = LocalWindow" "backend (curr c') = LocalWindow"
     "size_c c' = 60000000000" "syncInterval c' = 0" "syncStopCh c' = None" "\<not> syncTask c'"
     "\<not> finalizerSet c'"
    using advance_frame [of minute_counter "63900000000000000000 + 61000000000" c']
    by (simp_all add: minute_counter_def)
  with c have "c' = minute_counter\<lparr>
       prev := \<lparr>start = 63900000000000000000, count = 10, backend = LocalWindow\<rparr>,
       curr := \<lparr>start = 63900000060000000000, count = 0, backend = LocalWindow\<rparr>\<rparr>"
    by (simp add: minute_counter_def)
  with c(1) h show ?thesis by simp
qed

text \<open>
  C10. A \<open>Count\<close> that returns leaves the counter in a state where a second \<open>Count\<close> at
  the same instant returns the same value and the same state.
\<close>

theorem Count_idempotent:
  assumes "Count oor c now = Inr (v, c')"
  shows "Count oor c' now = Inr (v, c')"
proof -
  from assms obtain c1 where a: "advance c now = Inr c1"
    by (auto simp: Count_def split: sum.splits)
  with assms have c1: "c1 = c'"
    by (simp add: Count_def Let_def)
  from a c1 have "advance c' now = Inr c'"
    by (simp add: advance_idem)
  with assms a c1 show ?thesis
    by (simp add: Count_def Let_def)
qed

lemma weighted_55_60_10:
  "f64_trunc (f64_mul (f64_div (f64_of_int64 55) (f64_of_int64 60)) (f64_of_int64 10)) = 9"
  by code_simp

lemma adv_demo_185: "advance demo 185 = Inr demo_next"
  by (simp add: demo_def demo_next_def advance_def diffSize_def go_div_def go_quot_def i64_def
      Time_Sub_def Time_Truncate_def Time_Add_def Window_Start_def Window_Count_def
      Window_Reset_def minDuration_def maxDuration_def)

lemma Count_demo_185: "Count oor_x86 demo 185 = Inr (9, demo_next)"
proof -
  have x: "i64 (size_c demo_next - Time_Sub 185 (start (curr demo_next))) = 55"
    by (simp add: demo_next_def i64_def Time_Sub_def minDuration_def maxDuration_def)
  have t: "int64_of_f64 oor_x86 (f64_mul (f64_div (f64_of_int64 55)
             (f64_of_int64 (size_c demo_next))) (f64_of_int64 (count (prev demo_next)))) = 9"
    by (simp add: demo_next_def int64_of_f64_def weighted_55_60_10 in_int64_def)
  have "Count oor_x86 demo 185 = Inr (i64 (9 + count (curr demo_next)), demo_next)"
    using adv_demo_185 x t by (rule Count_eval)
  then show ?thesis
    by (simp add: demo_next_def i64_def)
qed

theorem Count_idempotent_witness:
  "Count oor_x86 demo 185 = Inr (9, demo_next) \<and>
   Count oor_x86 demo_next 185 = Inr (9, demo_next)"
  using Count_demo_185 Count_idempotent [OF Count_demo_185] by simp

section \<open>The rounding error of the float64 operations\<close>

text \<open>
  Each rounding moves a positive value by at most the fraction \<open>1 / 2 ^ 53\<close> of it, and a
  non-negative integer below \<open>2 ^ 53\<close> converts exactly.
\<close>

lemma scale_frac_pos: "0 < q \<Longrightarrow> 0 < snd (scale_frac p q e)"
  by (simp add: scale_frac_def)

lemma scale_frac_nonneg: "0 \<le> p \<Longrightarrow> 0 \<le> fst (scale_frac p q e)"
  by (simp add: scale_frac_def)

lemma scale_frac_ratio:
  assumes "0 < q"
  shows "real_of_int (fst (scale_frac p q e)) / real_of_int (snd (scale_frac p q e)) =
         (real_of_int p / real_of_int q) / 2 powi e"
proof (cases "0 \<le> e")
  case True
  then show ?thesis
    by (simp add: scale_frac_def power_int_def)
next
  case False
  then show ?thesis
    by (simp add: scale_frac_def power_int_def power_inverse field_simps)
qed

lemma round_even_err:
  assumes "0 < d"
  shows "\<bar>real_of_int (round_even n d) - real_of_int n / real_of_int d\<bar> \<le> 1 / 2"
proof -
  let ?m = "n div d" and ?r = "n mod d"
  have q: "real_of_int n / real_of_int d = real_of_int ?m + real_of_int ?r / real_of_int d"
    by (rule of_int_div_aux)
  have r: "0 \<le> ?r" "?r < d"
    using assms by simp_all
  show ?thesis
  proof (cases "d < 2 * ?r \<or> (2 * ?r = d \<and> odd ?m)")
    case True
    then have "d \<le> 2 * ?r" by auto
    then have "real_of_int d \<le> 2 * real_of_int ?r"
      by (metis of_int_le_iff of_int_mult of_int_numeral)
    then have "1 / 2 \<le> real_of_int ?r / real_of_int d"
      using assms by (simp add: field_simps)
    moreover have "real_of_int ?r / real_of_int d < 1"
      using r assms by simp
    moreover have "round_even n d = ?m + 1"
      using True by (simp add: round_even_def Let_def)
    ultimately show ?thesis
      by (simp add: q)
  next
    case False
    then have "2 * ?r \<le> d" by auto
    then have "2 * real_of_int ?r \<le> real_of_int d"
      by (metis of_int_le_iff of_int_mult of_int_numeral)
    then have "real_of_int ?r / real_of_int d \<le> 1 / 2"
      using assms by (simp add: field_simps)
    moreover have "0 \<le> real_of_int ?r / real_of_int d"
      using r assms by simp
    moreover have "round_even n d = ?m"
      using False by (simp add: round_even_def Let_def)
    ultimately show ?thesis
      by (simp add: q)
  qed
qed

lemma round_even_nonneg: "0 \<le> n \<Longrightarrow> 0 < d \<Longrightarrow> 0 \<le> round_even n d"
  by (simp add: round_even_def Let_def pos_imp_zdiv_nonneg_iff)

lemma bitlen_real_bounds:
  assumes "0 < x"
  shows "2 powi (bitlen x - 1) \<le> real_of_int x" and "real_of_int x \<le> 2 powi (bitlen x)"
proof -
  from bitlen_bounds [OF assms]
  have lo: "2 ^ nat (bitlen x - 1) \<le> x" and hi: "x < 2 ^ nat (bitlen x)"
    by simp_all
  have b1: "1 \<le> bitlen x"
    using assms by (simp add: bitlen_alt_def)
  have "real_of_int (2 ^ nat (bitlen x - 1)) \<le> real_of_int x"
    using lo by (simp only: of_int_le_iff)
  then show "2 powi (bitlen x - 1) \<le> real_of_int x"
    using b1 by (simp add: power_int_def)
  have "real_of_int x \<le> real_of_int (2 ^ nat (bitlen x))"
    using hi by (simp only: of_int_le_iff less_imp_le)
  then show "real_of_int x \<le> 2 powi (bitlen x)"
    using b1 by (simp add: power_int_def)
qed

lemma f64_exponent_lower:
  assumes "0 < p" and "0 < q"
  shows "2 ^ 52 * 2 powi (f64_exponent p q) \<le> real_of_int p / real_of_int q"
proof -
  define k where "k = bitlen p - bitlen q - 53"
  let ?nd = "scale_frac p q k"
  have ex: "f64_exponent p q = (if 2 ^ 53 * snd ?nd \<le> fst ?nd then k + 1 else k)"
    by (simp add: f64_exponent_def Let_def k_def)
  have "2 powi (bitlen p - 1) / 2 powi (bitlen q) \<le> real_of_int p / real_of_int q"
    using bitlen_real_bounds [OF assms(1)] bitlen_real_bounds [OF assms(2)] assms
    by (intro frac_le) simp_all
  moreover have "(2::real) powi (bitlen p - 1 - bitlen q) =
      2 powi (bitlen p - 1) / 2 powi (bitlen q)"
    by (rule power_int_diff) simp
  moreover have "bitlen p - 1 - bitlen q = k + 52"
    by (simp add: k_def)
  ultimately have "(2::real) powi (k + 52) \<le> real_of_int p / real_of_int q"
    by simp
  then have lo: "2 ^ 52 * 2 powi k \<le> real_of_int p / real_of_int q"
    by (simp add: power_int_add mult.commute)
  show ?thesis
  proof (cases "2 ^ 53 * snd ?nd \<le> fst ?nd")
    case True
    have d: "0 < real_of_int (snd ?nd)"
      using scale_frac_pos [OF assms(2)] by simp
    from True have "real_of_int (2 ^ 53 * snd ?nd) \<le> real_of_int (fst ?nd)"
      by (simp only: of_int_le_iff)
    then have "2 ^ 53 \<le> real_of_int (fst ?nd) / real_of_int (snd ?nd)"
      using d by (simp add: field_simps)
    then have "2 ^ 53 \<le> (real_of_int p / real_of_int q) / 2 powi k"
      by (simp only: scale_frac_ratio [OF assms(2)])
    moreover have pk: "0 < (2::real) powi k"
      by simp
    ultimately have "2 ^ 53 * 2 powi k \<le> real_of_int p / real_of_int q"
      by (simp only: pos_le_divide_eq [OF pk])
    then have "2 ^ 52 * 2 powi (k + 1) \<le> real_of_int p / real_of_int q"
      by (simp add: power_int_add)
    with True show ?thesis
      by (simp only: ex if_True)
  next
    case False
    with lo show ?thesis
      by (simp only: ex if_False)
  qed
qed

lemma f64_round_err:
  assumes "0 < p" and "0 < q"
  shows "\<bar>f64_val (f64_round p q) - real_of_int p / real_of_int q\<bar>
           \<le> (real_of_int p / real_of_int q) / 2 ^ 53"
    and "0 \<le> fst (f64_round p q)"
proof -
  let ?e = "f64_exponent p q"
  let ?nd = "scale_frac p q ?e"
  let ?m = "round_even (fst ?nd) (snd ?nd)"
  let ?x = "real_of_int p / real_of_int q"
  have fr: "f64_round p q = (?m, ?e)"
    using assms by (simp add: f64_round_def Let_def)
  have d: "0 < snd ?nd"
    using assms(2) by (rule scale_frac_pos)
  have n: "0 \<le> fst ?nd"
    using assms(1) by (intro scale_frac_nonneg) simp
  show "0 \<le> fst (f64_round p q)"
    using round_even_nonneg [OF n d] by (simp add: fr)
  have ratio: "real_of_int (fst ?nd) / real_of_int (snd ?nd) = ?x / 2 powi ?e"
    using assms(2) by (rule scale_frac_ratio)
  have half: "\<bar>real_of_int ?m - ?x / 2 powi ?e\<bar> \<le> 1 / 2"
    using round_even_err [OF d, of "fst ?nd"] by (simp only: ratio)
  have "real_of_int ?m * 2 powi ?e - ?x = (real_of_int ?m - ?x / 2 powi ?e) * 2 powi ?e"
    by (simp add: field_simps)
  then have "\<bar>real_of_int ?m * 2 powi ?e - ?x\<bar> =
      \<bar>real_of_int ?m - ?x / 2 powi ?e\<bar> * 2 powi ?e"
    by (simp only: abs_mult) simp
  also have "\<dots> \<le> 1 / 2 * 2 powi ?e"
    using half by (intro mult_right_mono) simp_all
  also have "1 / 2 * 2 powi ?e \<le> ?x / 2 ^ 53"
    using f64_exponent_lower [OF assms] by (simp add: field_simps)
  finally show "\<bar>f64_val (f64_round p q) - ?x\<bar> \<le> ?x / 2 ^ 53"
    by (simp add: fr f64_val_def)
qed

lemma f64_round_err0:
  assumes "0 \<le> p" and "0 < q"
  shows "\<bar>f64_val (f64_round p q) - real_of_int p / real_of_int q\<bar>
           \<le> (real_of_int p / real_of_int q) / 2 ^ 53"
    and "0 \<le> fst (f64_round p q)"
proof -
  show "\<bar>f64_val (f64_round p q) - real_of_int p / real_of_int q\<bar>
           \<le> (real_of_int p / real_of_int q) / 2 ^ 53"
  proof (cases "p = 0")
    case True
    then show ?thesis by (simp add: f64_round_def f64_val_def)
  next
    case False
    with assms have "0 < p" by simp
    then show ?thesis using assms(2) by (rule f64_round_err)
  qed
  show "0 \<le> fst (f64_round p q)"
  proof (cases "p = 0")
    case True
    then show ?thesis by (simp add: f64_round_def)
  next
    case False
    with assms have "0 < p" by simp
    then show ?thesis using assms(2) by (rule f64_round_err)
  qed
qed

lemma f64_val_shift: "f64_val (m, e + j) = f64_val (m, e) * 2 powi j"
  by (simp add: f64_val_def power_int_add)

lemma f64_val_nonneg: "0 \<le> fst f \<Longrightarrow> 0 \<le> f64_val f"
  by (simp add: f64_val_def)

lemma f64_div_err:
  assumes "0 \<le> fst a" and "0 < fst b"
  shows "\<bar>f64_val (f64_div a b) - f64_val a / f64_val b\<bar> \<le> (f64_val a / f64_val b) / 2 ^ 53"
    and "0 \<le> fst (f64_div a b)"
proof -
  let ?r = "f64_round (fst a) (fst b)"
  let ?j = "snd a - snd b"
  let ?x = "real_of_int (fst a) / real_of_int (fst b)"
  have dv: "f64_div a b = (fst ?r, snd ?r + ?j)"
    by (simp add: f64_div_def Let_def)
  show "0 \<le> fst (f64_div a b)"
    using f64_round_err0(2) [OF assms] by (simp add: dv)
  have v: "f64_val (f64_div a b) = f64_val ?r * 2 powi ?j"
    unfolding dv using f64_val_shift [of "fst ?r" "snd ?r" ?j] by simp
  have q: "f64_val a / f64_val b = ?x * 2 powi ?j"
    by (simp add: f64_val_def power_int_diff)
  have "f64_val (f64_div a b) - f64_val a / f64_val b = (f64_val ?r - ?x) * 2 powi ?j"
    by (simp add: v q algebra_simps)
  then have "\<bar>f64_val (f64_div a b) - f64_val a / f64_val b\<bar> = \<bar>f64_val ?r - ?x\<bar> * 2 powi ?j"
    by (simp add: abs_mult)
  also have "\<dots> \<le> (?x / 2 ^ 53) * 2 powi ?j"
    using f64_round_err0(1) [OF assms] by (intro mult_right_mono) simp_all
  also have "\<dots> = (f64_val a / f64_val b) / 2 ^ 53"
    by (simp add: q)
  finally show "\<bar>f64_val (f64_div a b) - f64_val a / f64_val b\<bar>
      \<le> (f64_val a / f64_val b) / 2 ^ 53" .
qed

lemma f64_mul_err:
  assumes "0 \<le> fst a" and "0 \<le> fst b"
  shows "\<bar>f64_val (f64_mul a b) - f64_val a * f64_val b\<bar> \<le> (f64_val a * f64_val b) / 2 ^ 53"
    and "0 \<le> fst (f64_mul a b)"
proof -
  let ?r = "f64_round (fst a * fst b) 1"
  let ?j = "snd a + snd b"
  let ?x = "real_of_int (fst a) * real_of_int (fst b)"
  have nn: "0 \<le> fst a * fst b" and one: "0 < (1::int)"
    using assms by simp_all
  have dv: "f64_mul a b = (fst ?r, snd ?r + ?j)"
    by (simp add: f64_mul_def Let_def add.assoc)
  show "0 \<le> fst (f64_mul a b)"
    using f64_round_err0(2) [OF nn one] by (simp add: dv)
  have v: "f64_val (f64_mul a b) = f64_val ?r * 2 powi ?j"
    unfolding dv using f64_val_shift [of "fst ?r" "snd ?r" ?j] by simp
  have q: "f64_val a * f64_val b = ?x * 2 powi ?j"
    by (simp add: f64_val_def power_int_add)
  have e: "\<bar>f64_val ?r - ?x\<bar> \<le> ?x / 2 ^ 53"
    using f64_round_err0(1) [OF nn one] by simp
  have "f64_val (f64_mul a b) - f64_val a * f64_val b = (f64_val ?r - ?x) * 2 powi ?j"
    by (simp add: v q algebra_simps)
  then have "\<bar>f64_val (f64_mul a b) - f64_val a * f64_val b\<bar> = \<bar>f64_val ?r - ?x\<bar> * 2 powi ?j"
    by (simp add: abs_mult)
  also have "\<dots> \<le> (?x / 2 ^ 53) * 2 powi ?j"
    using e by (intro mult_right_mono) simp_all
  also have "\<dots> = (f64_val a * f64_val b) / 2 ^ 53"
    by (simp add: q)
  finally show "\<bar>f64_val (f64_mul a b) - f64_val a * f64_val b\<bar>
      \<le> (f64_val a * f64_val b) / 2 ^ 53" .
qed

lemma f64_trunc_floor:
  assumes "0 \<le> fst f"
  shows "f64_trunc f = \<lfloor>f64_val f\<rfloor>"
proof (cases "0 \<le> snd f")
  case True
  then have "f64_val f = real_of_int (fst f * 2 ^ nat (snd f))"
    by (simp add: f64_val_def power_int_def)
  then have "\<lfloor>f64_val f\<rfloor> = fst f * 2 ^ nat (snd f)"
    by (simp only: floor_of_int)
  with True show ?thesis
    by (simp add: f64_trunc_def)
next
  case False
  then have "f64_val f = real_of_int (fst f) / real_of_int (2 ^ nat (- snd f))"
    by (simp add: f64_val_def power_int_def power_inverse field_simps)
  then have "\<lfloor>f64_val f\<rfloor> = fst f div 2 ^ nat (- snd f)"
    by (simp only: floor_divide_of_int_eq)
  with False assms show ?thesis
    by (cases "fst f = 0") (simp_all add: f64_trunc_def)
qed

lemma f64_of_int64_exact:
  assumes "0 \<le> x" and "x < 2 ^ 53"
  shows "f64_val (f64_of_int64 x) = real_of_int x" and "0 \<le> fst (f64_of_int64 x)"
    and "0 < x \<Longrightarrow> 0 < fst (f64_of_int64 x)"
proof -
  have *: "f64_val (f64_of_int64 x) = real_of_int x \<and> 0 < fst (f64_of_int64 x)" if "0 < x"
  proof -
    define e where "e = f64_exponent x 1"
    have "bitlen x \<le> 53"
      using assms(2) by (simp add: bitlen_le_iff_power)
    moreover have "bitlen 1 = 1"
      by (simp add: bitlen_alt_def)
    ultimately have e: "e \<le> 0"
      by (simp add: e_def f64_exponent_def Let_def)
    then have sf: "scale_frac x 1 e = (x * 2 ^ nat (- e), 1)"
      by (cases "e = 0") (simp_all add: scale_frac_def)
    have re: "round_even n 1 = n" for n
      by (simp add: round_even_def)
    have fr: "f64_of_int64 x = (x * 2 ^ nat (- e), e)"
      using that by (simp add: f64_of_int64_def f64_round_def Let_def e_def [symmetric] sf re)
    have "f64_val (x * 2 ^ nat (- e), e) = real_of_int x"
      using e by (cases "e = 0") (simp_all add: f64_val_def power_int_def power_one_over)
    with that show ?thesis
      by (simp add: fr)
  qed
  show "f64_val (f64_of_int64 x) = real_of_int x"
    using * assms(1) by (cases "x = 0") (simp_all add: f64_of_int64_def f64_round_def f64_val_def)
  show "0 \<le> fst (f64_of_int64 x)"
    using * assms(1) by (cases "x = 0") (simp_all add: f64_of_int64_def f64_round_def less_imp_le)
  show "0 < x \<Longrightarrow> 0 < fst (f64_of_int64 x)"
    using * by simp
qed

lemma two_roundings:
  fixes r P d w :: real
  assumes "0 \<le> r" and "r \<le> 1" and "0 \<le> P" and "P \<le> 2 ^ 51"
    and "\<bar>d - r\<bar> \<le> r / 2 ^ 53" and "\<bar>w - d * P\<bar> \<le> d * P / 2 ^ 53"
  shows "\<bar>w - r * P\<bar> < 1"
proof -
  have r53: "r / 2 ^ 53 \<le> 1 / 2 ^ 53"
    using assms(2) by (simp add: divide_right_mono)
  with assms(5) have dr: "\<bar>d - r\<bar> \<le> 1 / 2 ^ 53"
    by linarith
  have "r / 2 ^ 53 \<le> r / 1"
    using assms(1) by (intro divide_left_mono) simp_all
  with assms(1,2,5) have d: "0 \<le> d" "d \<le> 2"
    by linarith+
  have "d * P \<le> 2 * 2 ^ 51"
    using d assms(3,4) by (intro mult_mono) simp_all
  then have "d * P / 2 ^ 53 \<le> 1 / 2"
    by (simp add: mult.commute)
  with assms(6) have a: "\<bar>w - d * P\<bar> \<le> 1 / 2"
    by linarith
  have "\<bar>d * P - r * P\<bar> = \<bar>d - r\<bar> * P"
    using assms(3) by (simp add: abs_mult flip: left_diff_distrib)
  also have "\<dots> \<le> (1 / 2 ^ 53) * 2 ^ 51"
    using dr assms(3,4) by (intro mult_mono) simp_all
  finally have b: "\<bar>d * P - r * P\<bar> \<le> 1 / 4"
    by simp
  from a b show ?thesis
    by linarith
qed

lemma floor_close:
  fixes v w :: real
  assumes "\<bar>w - v\<bar> < 1"
  shows "\<bar>\<lfloor>w\<rfloor> - \<lfloor>v\<rfloor>\<bar> \<le> 1"
proof -
  have "w \<le> v + 1" "v \<le> w + 1"
    using assms by linarith+
  then have "\<lfloor>w\<rfloor> \<le> \<lfloor>v + 1\<rfloor>" "\<lfloor>v\<rfloor> \<le> \<lfloor>w + 1\<rfloor>"
    by (simp_all only: floor_mono)
  then show ?thesis
    by simp
qed

lemma weighted_near_floor:
  assumes "0 < s" and "s < 2 ^ 53" and "0 \<le> x" and "x \<le> s" and "0 \<le> p" and "p \<le> 2 ^ 51"
    and "w = f64_mul (f64_div (f64_of_int64 x) (f64_of_int64 s)) (f64_of_int64 p)"
  shows "f64_trunc w = \<lfloor>f64_val w\<rfloor>"
    and "\<bar>f64_trunc w - \<lfloor>real_of_int x / real_of_int s * real_of_int p\<rfloor>\<bar> \<le> 1"
    and "in_int64 (f64_trunc w)"
proof -
  let ?a = "f64_of_int64 x" and ?b = "f64_of_int64 s" and ?c = "f64_of_int64 p"
  let ?d = "f64_div ?a ?b"
  let ?r = "real_of_int x / real_of_int s"
  have x53: "x < 2 ^ 53" and p53: "p < 2 ^ 53"
    using assms(2,4,6) by simp_all
  have a: "f64_val ?a = real_of_int x" "0 \<le> fst ?a"
    using f64_of_int64_exact [OF assms(3) x53] by simp_all
  have b: "f64_val ?b = real_of_int s" "0 < fst ?b"
    using f64_of_int64_exact [of s] assms(1,2) by simp_all
  have c: "f64_val ?c = real_of_int p" "0 \<le> fst ?c"
    using f64_of_int64_exact [OF assms(5) p53] by simp_all
  have d: "\<bar>f64_val ?d - ?r\<bar> \<le> ?r / 2 ^ 53" "0 \<le> fst ?d"
    using f64_div_err [OF a(2) b(2)] by (simp_all add: a(1) b(1))
  have w: "\<bar>f64_val w - f64_val ?d * real_of_int p\<bar> \<le> f64_val ?d * real_of_int p / 2 ^ 53"
    "0 \<le> fst w"
    using f64_mul_err [OF d(2) c(2)] by (simp_all add: c(1) assms(7))
  have r: "0 \<le> ?r" "?r \<le> 1"
    using assms(1,3,4) by simp_all
  have P: "0 \<le> real_of_int p" "real_of_int p \<le> 2 ^ 51"
  proof -
    show "0 \<le> real_of_int p" using assms(5) by simp
    have "real_of_int p \<le> real_of_int (2 ^ 51)"
      using assms(6) by (simp only: of_int_le_iff)
    then show "real_of_int p \<le> 2 ^ 51" by simp
  qed
  have close: "\<bar>f64_val w - ?r * real_of_int p\<bar> < 1"
    using r P d(1) w(1) by (rule two_roundings)
  show t: "f64_trunc w = \<lfloor>f64_val w\<rfloor>"
    using w(2) by (rule f64_trunc_floor)
  show near: "\<bar>f64_trunc w - \<lfloor>?r * real_of_int p\<rfloor>\<bar> \<le> 1"
    unfolding t using close by (rule floor_close)
  have "?r * real_of_int p \<le> 1 * 2 ^ 51"
    using r P by (intro mult_mono) simp_all
  then have "\<lfloor>?r * real_of_int p\<rfloor> \<le> \<lfloor>(2 ^ 51 :: real)\<rfloor>"
    by (intro floor_mono) simp
  then have up: "\<lfloor>?r * real_of_int p\<rfloor> \<le> 2 ^ 51"
    by simp
  have "0 \<le> f64_val w"
    using w(2) by (rule f64_val_nonneg)
  then have lo: "0 \<le> f64_trunc w"
    by (simp add: t)
  from near up have "f64_trunc w \<le> 2 ^ 51 + 1"
    by linarith
  with lo show "in_int64 (f64_trunc w)"
    by (simp add: in_int64_def)
qed

section \<open>The estimate returned by Count\<close>

lemma adv_minute_75: "advance minute_75 63900000016000000000 = Inr minute_75"
  by (simp add: minute_75_def advance_def diffSize_def go_div_def go_quot_def i64_def Time_Sub_def
      Time_Truncate_def Window_Start_def minDuration_def maxDuration_def)

lemma weighted_44_60_75:
  "f64_trunc (f64_mul (f64_div (f64_of_int64 44000000000) (f64_of_int64 60000000000))
     (f64_of_int64 75)) = 54"
  by code_simp

lemma x_minute_75:
  "i64 (size_c minute_75 - Time_Sub 63900000016000000000 (start (curr minute_75))) = 44000000000"
  by (simp add: minute_75_def i64_def Time_Sub_def minDuration_def maxDuration_def)

lemma Count_minute_75: "Count oor_x86 minute_75 63900000016000000000 = Inr (54, minute_75)"
proof -
  have t: "int64_of_f64 oor_x86 (f64_mul (f64_div (f64_of_int64 44000000000)
             (f64_of_int64 (size_c minute_75))) (f64_of_int64 (count (prev minute_75)))) = 54"
    by (simp add: minute_75_def int64_of_f64_def weighted_44_60_75 in_int64_def)
  have "Count oor_x86 minute_75 63900000016000000000 =
          Inr (i64 (54 + count (curr minute_75)), minute_75)"
    using adv_minute_75 x_minute_75 t by (rule Count_eval)
  then show ?thesis
    by (simp add: minute_75_def i64_def)
qed

lemma exact_minute_75:
  "\<lfloor>real_of_int (size_c minute_75 - (63900000016000000000 - start (curr minute_75))) /
      real_of_int (size_c minute_75) * real_of_int (count (prev minute_75))\<rfloor> = 55"
  by (simp add: minute_75_def)

text \<open>
  C1, as stated, fails: the weight and the product are \<open>float64\<close> values. With a window of
  60 seconds, 16 seconds into the current bucket and 75 in the previous window, the exact
  product \<open>44 / 60 * 75\<close> is 55, but the quotient \<open>44 / 60\<close> rounds down, its product
  with 75 rounds to the \<open>float64\<close> just below 55, and \<open>Count\<close> returns 54.
\<close>

theorem Count_exact_floor_counterexample:
  "Count oor_x86 minute_75 63900000016000000000 = Inr (54, minute_75) \<and>
   \<lfloor>real_of_int (size_c minute_75 - (63900000016000000000 - start (curr minute_75))) /
      real_of_int (size_c minute_75) * real_of_int (count (prev minute_75))\<rfloor>
     + count (curr minute_75) = 55"
  using Count_minute_75 exact_minute_75 by (simp add: minute_75_def)

text \<open>
  C1, as amended. \<open>Count(now)\<close> first runs \<open>advance\<close>; on the counter \<open>c1\<close> that
  leaves, it returns the \<open>int64\<close> sum of the current count and of the conversion to
  \<open>int64\<close> of the \<open>float64\<close> product \<open>w\<close> of the previous count with the \<open>float64\<close>
  quotient of \<open>size - elapsed\<close> by \<open>size\<close>. For a size below \<open>2 ^ 53\<close> nanoseconds, a
  \<open>now\<close> inside the current window and a previous count from 0 to \<open>2 ^ 51\<close>, the
  conversion is the floor of \<open>w\<close> (truncation, no rounding to nearest) and differs from the
  floor of the exact \<open>(size - elapsed) / size * prev.Count()\<close> by at most 1.
\<close>

theorem Count_weighted_estimate:
  assumes "advance c now = Inr c1"
    and "w = f64_mul (f64_div (f64_of_int64 (i64 (size_c c1 - Time_Sub now (start (curr c1)))))
                              (f64_of_int64 (size_c c1)))
                     (f64_of_int64 (count (prev c1)))"
  shows "Count oor c now = Inr (i64 (int64_of_f64 oor w + count (curr c1)), c1) \<and>
     (0 < size_c c1 \<and> size_c c1 < 2 ^ 53 \<and> start (curr c1) \<le> now \<and>
      now \<le> start (curr c1) + size_c c1 \<and> 0 \<le> count (prev c1) \<and> count (prev c1) \<le> 2 ^ 51 \<longrightarrow>
        int64_of_f64 oor w = \<lfloor>f64_val w\<rfloor> \<and>
        \<bar>int64_of_f64 oor w -
           \<lfloor>real_of_int (size_c c1 - (now - start (curr c1))) / real_of_int (size_c c1) *
            real_of_int (count (prev c1))\<rfloor>\<bar> \<le> 1)"
proof -
  have ret: "Count oor c now = Inr (i64 (int64_of_f64 oor w + count (curr c1)), c1)"
    using assms by (simp add: Count_def Window_Start_def Window_Count_def Let_def)
  have "int64_of_f64 oor w = \<lfloor>f64_val w\<rfloor> \<and>
        \<bar>int64_of_f64 oor w -
           \<lfloor>real_of_int (size_c c1 - (now - start (curr c1))) / real_of_int (size_c c1) *
            real_of_int (count (prev c1))\<rfloor>\<bar> \<le> 1"
    if h: "0 < size_c c1" "size_c c1 < 2 ^ 53" "start (curr c1) \<le> now"
      "now \<le> start (curr c1) + size_c c1" "0 \<le> count (prev c1)" "count (prev c1) \<le> 2 ^ 51"
  proof -
    let ?x = "size_c c1 - (now - start (curr c1))"
    have el: "Time_Sub now (start (curr c1)) = now - start (curr c1)"
      using h(2,3,4) by (simp add: Time_Sub_def minDuration_def maxDuration_def)
    have x: "0 \<le> ?x" "?x \<le> size_c c1"
      using h(3,4) by simp_all
    have "in_int64 ?x"
      using x h(2) by (simp add: in_int64_def)
    then have ix: "i64 (size_c c1 - Time_Sub now (start (curr c1))) = ?x"
      by (simp add: el i64_id)
    have w: "w = f64_mul (f64_div (f64_of_int64 ?x) (f64_of_int64 (size_c c1)))
                     (f64_of_int64 (count (prev c1)))"
      using assms(2) by (simp only: ix)
    note n = weighted_near_floor [OF h(1,2) x h(5,6) w]
    from n(3) have "int64_of_f64 oor w = f64_trunc w"
      by (simp add: int64_of_f64_def)
    with n(1,2) show ?thesis
      by simp
  qed
  with ret show ?thesis
    by blast
qed

theorem Count_weighted_estimate_witness:
  "advance minute_75 63900000016000000000 = Inr minute_75 \<and>
   0 < size_c minute_75 \<and> size_c minute_75 < 2 ^ 53 \<and>
   start (curr minute_75) \<le> 63900000016000000000 \<and>
   63900000016000000000 \<le> start (curr minute_75) + size_c minute_75 \<and>
   0 \<le> count (prev minute_75) \<and> count (prev minute_75) \<le> 2 ^ 51 \<and>
   Count oor_x86 minute_75 63900000016000000000 = Inr (54, minute_75) \<and>
   \<bar>54 - \<lfloor>real_of_int (size_c minute_75 - (63900000016000000000 - start (curr minute_75))) /
      real_of_int (size_c minute_75) * real_of_int (count (prev minute_75))\<rfloor>\<bar> \<le> 1"
proof -
  have h: "0 < size_c minute_75 \<and> size_c minute_75 < 2 ^ 53 \<and>
   start (curr minute_75) \<le> 63900000016000000000 \<and>
   63900000016000000000 \<le> start (curr minute_75) + size_c minute_75 \<and>
   0 \<le> count (prev minute_75) \<and> count (prev minute_75) \<le> 2 ^ 51"
    by (simp add: minute_75_def)
  have t: "int64_of_f64 oor_x86 (f64_mul (f64_div (f64_of_int64
             (i64 (size_c minute_75 - Time_Sub 63900000016000000000 (start (curr minute_75)))))
             (f64_of_int64 (size_c minute_75))) (f64_of_int64 (count (prev minute_75)))) = 54"
    unfolding x_minute_75
    by (simp add: minute_75_def int64_of_f64_def weighted_44_60_75 in_int64_def)
  from Count_weighted_estimate [OF adv_minute_75 refl, of oor_x86] h
  have A: "Count oor_x86 minute_75 63900000016000000000 =
             Inr (i64 (54 + count (curr minute_75)), minute_75)"
    and B: "\<bar>54 - \<lfloor>real_of_int (size_c minute_75 -
               (63900000016000000000 - start (curr minute_75))) /
             real_of_int (size_c minute_75) * real_of_int (count (prev minute_75))\<rfloor>\<bar> \<le> 1"
    unfolding t by blast+
  have "i64 (54 + count (curr minute_75)) = 54"
    by (simp add: minute_75_def i64_def)
  with A have "Count oor_x86 minute_75 63900000016000000000 = Inr (54, minute_75)"
    by (simp only:)
  with adv_minute_75 h B show ?thesis
    by blast
qed

end
